theory Spec2Isabelle
  imports Main "HOL-Library.Word"
begin

section \<open>The relay of visualization/index.js\<close>

text \<open>
  The program is one file: a WebSocket server with two module-level variables,
  \<open>visSocket\<close> and \<open>prismSocket\<close>, a listener for the server's \<open>connection\<close> event and,
  inside it, a listener for a socket's \<open>message\<close> event. Node runs the listeners one at a
  time, so the program is a function from the state and an event to the next state.

  A connection object is identified by a number. The payload handed to a \<open>message\<close>
  listener is a JavaScript value: a string or a Buffer of bytes. A variable that holds
  \<open>null\<close> is \<open>None\<close>.
\<close>

type_synonym conn = nat

type_synonym byte = "8 word"

datatype data = JSString string | JSBuffer "byte list"

text \<open>The only exception the file's own code could raise: a method call on \<open>null\<close>.\<close>

datatype error = TypeError

text \<open>What \<open>console.log\<close> is given: a string literal of the program, or a payload.\<close>

datatype logline = Line string | Value data

text \<open>
  The state: the two variables, and the effects of the program on its environment, each
  as the list of calls made so far, oldest first: the \<open>message\<close> listeners registered
  (one entry per call of \<open>on\<close>, naming the socket), the calls of \<open>send\<close> (socket and
  argument) and the console output.
\<close>

record relay =
  visSocket :: "conn option"
  prismSocket :: "conn option"
  listeners :: "conn list"
  sent :: "(conn \<times> data) list"
  console :: "logline list"

text \<open>Lines 4 to 7: both variables are \<open>null\<close>, one line is printed.\<close>

definition init :: relay where
  "init = \<lparr>visSocket = None, prismSocket = None, listeners = [], sent = [],
     console = [Line ''Waiting for incoming of visualization and prism'']\<rparr>"

text \<open>
  \<open>sock.on('message', handler)\<close> and \<open>sock.send(d)\<close>: on \<open>null\<close> they raise, on a socket
  they are recorded.
\<close>

definition socket_on_message :: "conn option \<Rightarrow> relay \<Rightarrow> error + relay" where
  "socket_on_message sock s =
     (case sock of
        None \<Rightarrow> Inl TypeError
      | Some c \<Rightarrow> Inr (s\<lparr>listeners := listeners s @ [c]\<rparr>))"

definition socket_send :: "conn option \<Rightarrow> data \<Rightarrow> relay \<Rightarrow> error + relay" where
  "socket_send sock d s =
     (case sock of
        None \<Rightarrow> Inl TypeError
      | Some c \<Rightarrow> Inr (s\<lparr>sent := sent s @ [(c, d)]\<rparr>))"

text \<open>
  The template literal of line 21 converts its argument to a string: a string is itself,
  a Buffer is decoded by its \<open>toString\<close> method. That method belongs to the Node runtime,
  not to this repository, so it is a parameter here.
\<close>

fun template_literal :: "(byte list \<Rightarrow> string) \<Rightarrow> data \<Rightarrow> string" where
  "template_literal toString (JSString t) = t"
| "template_literal toString (JSBuffer b) = toString b"

text \<open>Lines 18 to 22, the \<open>message\<close> listener. It reads \<open>visSocket\<close> when it runs.\<close>

definition message_handler :: "(byte list \<Rightarrow> string) \<Rightarrow> data \<Rightarrow> relay \<Rightarrow> error + relay" where
  "message_handler toString message s =
     (let s1 = s\<lparr>console := console s @ [Value message]\<rparr>
      in if visSocket s1 \<noteq> None
         then socket_send (visSocket s1) (JSString (template_literal toString message)) s1
         else Inr s1)"

text \<open>Lines 8 to 24, the \<open>connection\<close> listener.\<close>

definition connection_handler :: "conn \<Rightarrow> relay \<Rightarrow> error + relay" where
  "connection_handler ws s =
     (let s1 = (if visSocket s = None
                then s\<lparr>visSocket := Some ws,
                       console := console s @ [Line ''Connected to visualization'']\<rparr>
                else s\<lparr>prismSocket := Some ws,
                       console := console s @ [Line ''Connected to prism'']\<rparr>)
      in if prismSocket s1 \<noteq> None
         then socket_on_message (prismSocket s1) s1
         else Inr s1)"

text \<open>
  A \<open>message\<close> event on socket \<open>c\<close> calls every listener registered on \<open>c\<close>, in the order
  of registration; a listener that raises ends the event. The first argument is the
  list of registrations when the event starts.
\<close>

fun emit_message ::
  "(byte list \<Rightarrow> string) \<Rightarrow> conn list \<Rightarrow> conn \<Rightarrow> data \<Rightarrow> relay \<Rightarrow> error + relay" where
  "emit_message toString [] c m s = Inr s"
| "emit_message toString (l # ls) c m s =
     (if l = c
      then (case message_handler toString m s of
              Inl e \<Rightarrow> Inl e
            | Inr s' \<Rightarrow> emit_message toString ls c m s')
      else emit_message toString ls c m s)"

datatype event = Connection conn | Message conn data

fun step :: "(byte list \<Rightarrow> string) \<Rightarrow> event \<Rightarrow> relay \<Rightarrow> error + relay" where
  "step toString (Connection ws) s = connection_handler ws s"
| "step toString (Message c m) s = emit_message toString (listeners s) c m s"

fun run :: "(byte list \<Rightarrow> string) \<Rightarrow> event list \<Rightarrow> relay \<Rightarrow> error + relay" where
  "run toString [] s = Inr s"
| "run toString (e # es) s =
     (case step toString e s of
        Inl err \<Rightarrow> Inl err
      | Inr s' \<Rightarrow> run toString es s')"

subsection \<open>Vocabulary of the statements\<close>

text \<open>The sockets of the \<open>connection\<close> events of a trace, in order.\<close>

fun accepted :: "event list \<Rightarrow> conn list" where
  "accepted [] = []"
| "accepted (Connection ws # es) = ws # accepted es"
| "accepted (Message c m # es) = accepted es"

text \<open>The \<open>message\<close> events of one socket, one per payload.\<close>

definition messages :: "conn \<Rightarrow> data list \<Rightarrow> event list" where
  "messages c ms = map (Message c) ms"

text \<open>A trace of \<open>message\<close> events only, each given as socket and payload.\<close>

fun message_events :: "(conn \<times> data) list \<Rightarrow> event list" where
  "message_events [] = []"
| "message_events ((c, m) # xs) = Message c m # message_events xs"

text \<open>
  The number of times the \<open>message\<close> listener has run: it prints the payload first, and
  nothing else prints a payload.
\<close>

fun is_value :: "logline \<Rightarrow> bool" where
  "is_value (Value d) = True"
| "is_value (Line t) = False"

definition handler_runs :: "relay \<Rightarrow> nat" where
  "handler_runs s = length (filter is_value (console s))"

text \<open>
  The decoding with one character per byte (Node's \<open>latin1\<close>). On bytes below 128 it is
  also what the default UTF-8 decoding of \<open>toString\<close> gives; the examples use it on such
  bytes only.
\<close>

definition latin1 :: "byte list \<Rightarrow> string" where
  "latin1 bs = map (\<lambda>b. char_of (unat b)) bs"

text \<open>
  The state after the connections of socket 1 and then socket 2, for the examples.
\<close>

definition connected :: relay where
  "connected = \<lparr>visSocket = Some 1, prismSocket = Some 2, listeners = [2], sent = [],
     console = [Line ''Waiting for incoming of visualization and prism'',
                Line ''Connected to visualization'', Line ''Connected to prism'']\<rparr>"

section \<open>The listeners never raise\<close>

lemma message_handler_eq:
  "message_handler toString m s =
     Inr (s\<lparr>console := console s @ [Value m],
            sent := sent s @ (case visSocket s of
                                None \<Rightarrow> []
                              | Some v \<Rightarrow> [(v, JSString (template_literal toString m))])\<rparr>)"
  by (cases "visSocket s") (simp_all add: message_handler_def socket_send_def Let_def)

lemma connection_handler_eq:
  "connection_handler ws s =
     Inr (if visSocket s = None
          then (case prismSocket s of
                  None \<Rightarrow> s\<lparr>visSocket := Some ws,
                            console := console s @ [Line ''Connected to visualization'']\<rparr>
                | Some p \<Rightarrow> s\<lparr>visSocket := Some ws,
                              console := console s @ [Line ''Connected to visualization''],
                              listeners := listeners s @ [p]\<rparr>)
          else s\<lparr>prismSocket := Some ws,
                 console := console s @ [Line ''Connected to prism''],
                 listeners := listeners s @ [ws]\<rparr>)"
  by (cases "prismSocket s")
     (simp_all add: connection_handler_def socket_on_message_def Let_def)

lemma emit_message_eq:
  "emit_message toString ls c m s =
     Inr (s\<lparr>console := console s @ replicate (count_list ls c) (Value m),
            sent := sent s @ (case visSocket s of
                                None \<Rightarrow> []
                              | Some v \<Rightarrow> replicate (count_list ls c)
                                    (v, JSString (template_literal toString m)))\<rparr>)"
proof (induction ls arbitrary: s)
  case Nil
  show ?case by (cases "visSocket s") simp_all
next
  case (Cons l ls)
  show ?case
  proof (cases "l = c")
    case True
    then show ?thesis
      by (cases "visSocket s")
         (simp_all add: message_handler_eq Cons.IH replicate_app_Cons_same)
  next
    case False
    then show ?thesis by (cases "visSocket s") (simp_all add: Cons.IH)
  qed
qed

section \<open>Traces\<close>

lemma run_append:
  "run toString (xs @ ys) s =
     (case run toString xs s of Inl e \<Rightarrow> Inl e | Inr s' \<Rightarrow> run toString ys s')"
  by (induction xs arbitrary: s) (simp_all split: sum.splits)

lemma accepted_append: "accepted (xs @ ys) = accepted xs @ accepted ys"
  by (induction xs rule: accepted.induct) simp_all

lemma step_total: "\<exists>s'. step toString e s = Inr s'"
  by (cases e) (simp_all add: connection_handler_eq emit_message_eq)

lemma run_total: "\<exists>s'. run toString es s = Inr s'"
proof (induction es arbitrary: s)
  case Nil
  show ?case by simp
next
  case (Cons e es)
  obtain s1 where "step toString e s = Inr s1" using step_total by blast
  with Cons.IH [of s1] show ?case by simp
qed

lemma run_snoc:
  assumes "run toString (es @ [e]) s = Inr s'"
  obtains s1 where "run toString es s = Inr s1" and "step toString e s1 = Inr s'"
  using assms by (auto simp: run_append split: sum.splits)

section \<open>Invariants\<close>

lemma step_visSocket:
  assumes "step toString e s = Inr s'" and "visSocket s = Some v"
  shows "visSocket s' = Some v"
  using assms by (cases e) (auto simp: connection_handler_eq emit_message_eq)

lemma run_visSocket:
  assumes "run toString es s = Inr s'" and "visSocket s = Some v"
  shows "visSocket s' = Some v"
  using assms
proof (induction es arbitrary: s)
  case Nil
  then show ?case by simp
next
  case (Cons e es)
  then show ?case by (auto split: sum.splits dest: step_visSocket)
qed

text \<open>
  The state reached from the start is fixed by the sockets accepted so far: the first is
  in \<open>visSocket\<close>, the last of two or more is in \<open>prismSocket\<close>, and every socket but
  the first has had one listener registered.
\<close>

lemma reach_slots:
  assumes "run toString evs init = Inr s"
  shows "visSocket s = (case accepted evs of [] \<Rightarrow> None | a # as \<Rightarrow> Some a)
       \<and> prismSocket s = (if length (accepted evs) < 2 then None
                          else Some (last (accepted evs)))
       \<and> listeners s = tl (accepted evs)"
  using assms
proof (induction evs arbitrary: s rule: rev_induct)
  case Nil
  then show ?case by (auto simp: init_def)
next
  case (snoc e evs)
  from snoc.prems obtain s0
    where r: "run toString evs init = Inr s0" and st: "step toString e s0 = Inr s"
    by (rule run_snoc)
  note ih = snoc.IH [OF r]
  show ?case
  proof (cases e)
    case (Connection ws)
    with st ih show ?thesis
      by (cases "accepted evs")
         (auto simp: connection_handler_eq accepted_append split: if_splits)
  next
    case (Message c m)
    with st ih show ?thesis
      by (auto simp: emit_message_eq accepted_append)
  qed
qed

text \<open>
  Every call of \<open>send\<close> so far was on the socket in \<open>visSocket\<close>, and the listener has
  sent once each time it ran.
\<close>

lemma reach_sent:
  assumes "run toString evs init = Inr s"
  shows "(\<forall>x \<in> set (sent s). visSocket s = Some (fst x))
       \<and> handler_runs s = length (sent s)"
  using assms
proof (induction evs arbitrary: s rule: rev_induct)
  case Nil
  then show ?case by (auto simp: init_def handler_runs_def)
next
  case (snoc e evs)
  from snoc.prems obtain s0
    where r: "run toString evs init = Inr s0" and st: "step toString e s0 = Inr s"
    by (rule run_snoc)
  note ih = snoc.IH [OF r] and sl = reach_slots [OF r]
  show ?case
  proof (cases e)
    case (Connection ws)
    with st ih show ?thesis
      by (cases "prismSocket s0")
         (auto simp: connection_handler_eq handler_runs_def split: if_splits)
  next
    case (Message c m)
    with st ih sl show ?thesis
      by (cases "accepted evs")
         (auto simp: emit_message_eq handler_runs_def)
  qed
qed

lemma accepted_message_events: "accepted (message_events xs) = []"
  by (induction xs rule: message_events.induct) simp_all

text \<open>Listeners are only ever added, at the end.\<close>

lemma step_listeners:
  assumes "step toString e s = Inr s'"
  shows "\<exists>ls. listeners s' = listeners s @ ls"
  using assms
  by (cases e)
     (auto simp: connection_handler_eq emit_message_eq split: if_splits option.splits)

lemma run_listeners:
  assumes "run toString es s = Inr s'"
  shows "\<exists>ls. listeners s' = listeners s @ ls"
  using assms
proof (induction es arbitrary: s)
  case Nil
  then show ?case by simp
next
  case (Cons e es)
  from Cons.prems obtain s1
    where a: "step toString e s = Inr s1" and b: "run toString es s1 = Inr s'"
    by (auto split: sum.splits)
  from step_listeners [OF a] Cons.IH [OF b] show ?case by auto
qed

text \<open>
  The messages of a socket with one listener, while \<open>visSocket\<close> is set: one line of
  output and one call of \<open>send\<close> for each, in order.
\<close>

lemma run_messages:
  assumes "visSocket s = Some v" and "count_list (listeners s) p = 1"
  shows "run toString (messages p ms) s =
           Inr (s\<lparr>console := console s @ map Value ms,
                  sent := sent s @ map (\<lambda>m. (v, JSString (template_literal toString m))) ms\<rparr>)"
  using assms
proof (induction ms arbitrary: s)
  case Nil
  then show ?case by (simp add: messages_def)
next
  case (Cons m ms)
  let ?s1 = "s\<lparr>console := console s @ [Value m],
               sent := sent s @ [(v, JSString (template_literal toString m))]\<rparr>"
  have "step toString (Message p m) s = Inr ?s1"
    using Cons.prems by (simp add: emit_message_eq)
  moreover have "visSocket ?s1 = Some v" "count_list (listeners ?s1) p = 1"
    using Cons.prems by simp_all
  ultimately show ?case
    using Cons.IH [of ?s1] by (simp add: messages_def)
qed

text \<open>The example state is the one two connections lead to.\<close>

lemma run_connected: "run toString [Connection 1, Connection 2] init = Inr connected"
  by (simp add: connection_handler_eq init_def connected_def)

text \<open>
  The value the listener hands to \<open>send\<close>, case by case: a string as it is, a Buffer
  decoded.
\<close>

lemma coerced_payload:
  "JSString (template_literal toString m) =
     (case m of JSString t \<Rightarrow> JSString t | JSBuffer b \<Rightarrow> JSString (toString b))"
  by (cases m) simp_all

section \<open>The claims\<close>

subsection \<open>C1: what the visualization socket is sent\<close>

text \<open>
  As C1 is written, the visualization socket is sent the message unmodified. A Buffer
  is not: after two connections, the Buffer of the bytes \<open>68 69\<close> (hexadecimal) from
  the second socket is sent on as the string \<open>hi\<close>, which is another value.
\<close>

theorem C1_counterexample:
  "run latin1 [Connection 1, Connection 2, Message 2 (JSBuffer [0x68, 0x69])] init =
     Inr \<lparr>visSocket = Some 1, prismSocket = Some 2, listeners = [2],
          sent = [(1, JSString ''hi'')],
          console = [Line ''Waiting for incoming of visualization and prism'',
                     Line ''Connected to visualization'', Line ''Connected to prism'',
                     Value (JSBuffer [0x68, 0x69])]\<rparr>
   \<and> JSString ''hi'' \<noteq> JSBuffer [0x68, 0x69]"
  by code_simp

text \<open>
  C1, amended. While \<open>visSocket\<close> is set to \<open>v\<close>, the messages \<open>ms\<close> that arrive on a
  socket with one listener make exactly one call of \<open>send\<close> on \<open>v\<close> each, in the order of
  arrival; the argument is the string conversion of the message, which for messages
  that are strings is the message itself.
\<close>

theorem C1_forwarding:
  assumes "visSocket s = Some v" and "count_list (listeners s) p = 1"
  shows "\<exists>s'. run toString (messages p ms) s = Inr s'
            \<and> sent s' = sent s @ map (\<lambda>m. (v, JSString (template_literal toString m))) ms
            \<and> (ms = map JSString ts \<longrightarrow> sent s' = sent s @ map (Pair v) ms)"
  using run_messages [OF assms, of toString ms] by (auto simp: comp_def)

theorem C1_forwarding_witness:
  "visSocket connected = Some 1
   \<and> count_list (listeners connected) 2 = 1
   \<and> (\<exists>s'. run latin1 (messages 2 [JSString ''hello'', JSString ''world'']) connected
             = Inr s'
          \<and> sent s' = [(1, JSString ''hello''), (1, JSString ''world'')])"
  using C1_forwarding [of connected 1 2 latin1 "[JSString ''hello'', JSString ''world'']"
      "[''hello'', ''world'']"]
  by (simp add: connected_def)

subsection \<open>C2: roles by order of arrival\<close>

text \<open>
  C2. Every trace of \<open>connection\<close> and \<open>message\<close> events runs without a listener
  raising, and if it has a first connection, that socket is in \<open>visSocket\<close> at the end.
  Wherever the second connection stands in the trace, with any messages before it, the
  step that handles it leaves \<open>visSocket\<close> the first socket and makes \<open>prismSocket\<close> the
  second; messages after it change neither. (With further connections after it
  \<open>prismSocket\<close> moves on, which is C3 and C5.)
\<close>

theorem C2_arrival_order:
  "\<exists>s. run toString evs init = Inr s
       \<and> (\<forall>a as. accepted evs = a # as \<longrightarrow> visSocket s = Some a)
       \<and> (\<forall>pre a b post. evs = pre @ Connection b # post \<longrightarrow> accepted pre = [a] \<longrightarrow>
             (\<exists>s2. run toString (pre @ [Connection b]) init = Inr s2
                  \<and> visSocket s2 = Some a \<and> prismSocket s2 = Some b
                  \<and> run toString post s2 = Inr s
                  \<and> (accepted post = [] \<longrightarrow> prismSocket s = Some b)))"
proof -
  obtain s where r: "run toString evs init = Inr s"
    using run_total by blast
  have first: "visSocket s = Some a" if "accepted evs = a # as" for a as
    using reach_slots [OF r] that by simp
  have second: "\<exists>s2. run toString (pre @ [Connection b]) init = Inr s2
                  \<and> visSocket s2 = Some a \<and> prismSocket s2 = Some b
                  \<and> run toString post s2 = Inr s
                  \<and> (accepted post = [] \<longrightarrow> prismSocket s = Some b)"
    if e: "evs = pre @ Connection b # post" and p: "accepted pre = [a]" for pre a b post
  proof -
    obtain s2 where r2: "run toString (pre @ [Connection b]) init = Inr s2"
      using run_total by blast
    have "evs = (pre @ [Connection b]) @ post"
      using e by simp
    with r r2 have r3: "run toString post s2 = Inr s"
      by (simp only: run_append sum.case)
    have acc2: "accepted (pre @ [Connection b]) = [a, b]"
      using p by (simp add: accepted_append)
    have slots2: "visSocket s2 = Some a" "prismSocket s2 = Some b"
      using reach_slots [OF r2] acc2 by simp_all
    have "prismSocket s = Some b" if "accepted post = []"
    proof -
      have "accepted evs = [a, b]"
        using e p that by (simp add: accepted_append)
      with reach_slots [OF r] show ?thesis by simp
    qed
    with r2 r3 slots2 show ?thesis by blast
  qed
  from r first second show ?thesis by blast
qed

theorem C2_arrival_order_witness:
  "\<exists>s s2. run latin1 [Connection 1, Message 1 (JSString ''a''), Connection 2,
                     Message 2 (JSString ''b'')] init = Inr s
        \<and> accepted [Connection 1, Message 1 (JSString ''a''), Connection 2,
                     Message 2 (JSString ''b'')] = [1, 2]
        \<and> accepted [Connection 1, Message 1 (JSString ''a'')] = [1]
        \<and> accepted [Message 2 (JSString ''b'')] = []
        \<and> visSocket s = Some 1
        \<and> run latin1 ([Connection 1, Message 1 (JSString ''a'')] @ [Connection 2]) init
            = Inr s2
        \<and> visSocket s2 = Some 1 \<and> prismSocket s2 = Some 2
        \<and> run latin1 [Message 2 (JSString ''b'')] s2 = Inr s
        \<and> prismSocket s = Some 2"
proof -
  let ?pre = "[Connection 1, Message 1 (JSString ''a'')]"
  let ?post = "[Message 2 (JSString ''b'')]"
  let ?evs = "[Connection 1, Message 1 (JSString ''a''), Connection 2,
               Message 2 (JSString ''b'')]"
  have e: "?evs = ?pre @ Connection 2 # ?post"
    by simp
  have a: "accepted ?evs = [1, 2]" "accepted ?pre = [1]" "accepted ?post = []"
    by simp_all
  from C2_arrival_order [of latin1 ?evs]
  obtain s where r: "run latin1 ?evs init = Inr s"
    and first: "\<forall>a as. accepted ?evs = a # as \<longrightarrow> visSocket s = Some a"
    and second: "\<forall>pre a b post. ?evs = pre @ Connection b # post \<longrightarrow> accepted pre = [a] \<longrightarrow>
             (\<exists>s2. run latin1 (pre @ [Connection b]) init = Inr s2
                  \<and> visSocket s2 = Some a \<and> prismSocket s2 = Some b
                  \<and> run latin1 post s2 = Inr s
                  \<and> (accepted post = [] \<longrightarrow> prismSocket s = Some b))"
    by blast
  from first a(1) have v: "visSocket s = Some 1"
    by blast
  from second [rule_format, OF e a(2)] a(3)
  obtain s2 where "run latin1 (?pre @ [Connection 2]) init = Inr s2"
    and "visSocket s2 = Some 1" and "prismSocket s2 = Some 2"
    and "run latin1 ?post s2 = Inr s" and "prismSocket s = Some 2"
    by blast
  with r a v show ?thesis by blast
qed

subsection \<open>C3: the third connection\<close>

text \<open>
  As C3 is written, a third connection leaves both variables as they are. It leaves
  \<open>visSocket\<close>, but \<open>prismSocket\<close> goes from the second socket to the third.
\<close>

theorem C3_counterexample:
  "run latin1 [Connection 1, Connection 2] init =
     Inr \<lparr>visSocket = Some 1, prismSocket = Some 2, listeners = [2], sent = [],
          console = [Line ''Waiting for incoming of visualization and prism'',
                     Line ''Connected to visualization'', Line ''Connected to prism'']\<rparr>
   \<and> run latin1 [Connection 1, Connection 2, Connection 3] init =
     Inr \<lparr>visSocket = Some 1, prismSocket = Some 3, listeners = [2, 3], sent = [],
          console = [Line ''Waiting for incoming of visualization and prism'',
                     Line ''Connected to visualization'', Line ''Connected to prism'',
                     Line ''Connected to prism'']\<rparr>"
  by code_simp

text \<open>
  C3, amended. When both variables are set, a further connection leaves \<open>visSocket\<close>
  as it is and becomes the new value of \<open>prismSocket\<close>.
\<close>

theorem C3_third_connection:
  assumes "visSocket s = Some v" and "prismSocket s = Some p"
  shows "\<exists>s'. step toString (Connection c) s = Inr s'
            \<and> visSocket s' = Some v \<and> prismSocket s' = Some c"
  using assms by (simp add: connection_handler_eq)

theorem C3_third_connection_witness:
  "visSocket connected = Some 1
   \<and> prismSocket connected = Some 2
   \<and> (\<exists>s'. step latin1 (Connection 3) connected = Inr s'
          \<and> visSocket s' = Some 1 \<and> prismSocket s' = Some 3)"
  using C3_third_connection [of connected 1 2 latin1 3]
  by (simp add: connected_def)

subsection \<open>C4: every later connection\<close>

text \<open>
  C4. Take a trace that starts with the connection of \<open>a\<close>, and a connection \<open>c\<close> after
  it. That step sets \<open>prismSocket\<close> to \<open>c\<close> and registers a listener on \<open>c\<close> in the same
  step. Whatever happens later, the listeners registered so far stay registered, and a
  message on any socket \<open>p\<close> that had a listener is still sent on to \<open>a\<close>, once for each
  listener of \<open>p\<close>, of which there is at least one.
\<close>

theorem C4_later_connections:
  "\<exists>s0 s1. run toString (Connection a # evs) init = Inr s0
        \<and> step toString (Connection c) s0 = Inr s1
        \<and> prismSocket s1 = Some c
        \<and> listeners s1 = listeners s0 @ [c]
        \<and> (\<forall>evs'. \<exists>s2. run toString evs' s1 = Inr s2
               \<and> (\<exists>ls. listeners s2 = listeners s1 @ ls)
               \<and> (\<forall>p m. p \<in> set (listeners s1) \<longrightarrow>
                     0 < count_list (listeners s2) p
                     \<and> (\<exists>s3. step toString (Message p m) s2 = Inr s3
                           \<and> sent s3 = sent s2 @ replicate (count_list (listeners s2) p)
                                 (a, JSString (template_literal toString m)))))"
proof -
  obtain s0 where r0: "run toString (Connection a # evs) init = Inr s0"
    using run_total by blast
  have v0: "visSocket s0 = Some a"
    using reach_slots [OF r0] by simp
  define s1 where "s1 = s0\<lparr>prismSocket := Some c,
      console := console s0 @ [Line ''Connected to prism''],
      listeners := listeners s0 @ [c]\<rparr>"
  have st: "step toString (Connection c) s0 = Inr s1"
    using v0 by (simp add: connection_handler_eq s1_def)
  have v1: "visSocket s1 = Some a"
    using v0 by (simp add: s1_def)
  have later: "\<exists>s2. run toString evs' s1 = Inr s2
               \<and> (\<exists>ls. listeners s2 = listeners s1 @ ls)
               \<and> (\<forall>p m. p \<in> set (listeners s1) \<longrightarrow>
                     0 < count_list (listeners s2) p
                     \<and> (\<exists>s3. step toString (Message p m) s2 = Inr s3
                           \<and> sent s3 = sent s2 @ replicate (count_list (listeners s2) p)
                                 (a, JSString (template_literal toString m))))" for evs'
  proof -
    obtain s2 where r2: "run toString evs' s1 = Inr s2"
      using run_total by blast
    have v2: "visSocket s2 = Some a"
      using run_visSocket [OF r2 v1] .
    obtain ls where l2: "listeners s2 = listeners s1 @ ls"
      using run_listeners [OF r2] by blast
    have "0 < count_list (listeners s2) p" if "p \<in> set (listeners s1)" for p
      using that l2 count_list_0_iff [of "listeners s1" p] by auto
    moreover have "\<exists>s3. step toString (Message p m) s2 = Inr s3
        \<and> sent s3 = sent s2 @ replicate (count_list (listeners s2) p)
              (a, JSString (template_literal toString m))" for p m
      using v2 by (simp add: emit_message_eq)
    ultimately show ?thesis using r2 l2 by blast
  qed
  have "prismSocket s1 = Some c" "listeners s1 = listeners s0 @ [c]"
    by (simp_all add: s1_def)
  with r0 st later show ?thesis by blast
qed

theorem C4_later_connections_witness:
  "\<exists>s0 s1. run latin1 [Connection 1, Connection 2] init = Inr s0
        \<and> step latin1 (Connection 3) s0 = Inr s1
        \<and> prismSocket s1 = Some 3
        \<and> listeners s1 = [2, 3]
        \<and> 2 \<in> set (listeners s1)
        \<and> (\<exists>s2 s3. run latin1 [Connection 4] s1 = Inr s2
              \<and> listeners s2 = [2, 3, 4]
              \<and> step latin1 (Message 2 (JSString ''x'')) s2 = Inr s3
              \<and> sent s3 = [(1, JSString ''x'')])"
proof -
  from C4_later_connections [of latin1 1 "[Connection 2]" 3]
  obtain s0 s1 where r0: "run latin1 [Connection 1, Connection 2] init = Inr s0"
    and st: "step latin1 (Connection 3) s0 = Inr s1"
    and p1: "prismSocket s1 = Some 3"
    and l1: "listeners s1 = listeners s0 @ [3]"
    and later: "\<forall>evs'. \<exists>s2. run latin1 evs' s1 = Inr s2
               \<and> (\<exists>ls. listeners s2 = listeners s1 @ ls)
               \<and> (\<forall>p m. p \<in> set (listeners s1) \<longrightarrow>
                     0 < count_list (listeners s2) p
                     \<and> (\<exists>s3. step latin1 (Message p m) s2 = Inr s3
                           \<and> sent s3 = sent s2 @ replicate (count_list (listeners s2) p)
                                 (1, JSString (template_literal latin1 m))))"
    by blast
  have s0: "s0 = \<lparr>visSocket = Some 1, prismSocket = Some 2, listeners = [2], sent = [],
      console = [Line ''Waiting for incoming of visualization and prism'',
                 Line ''Connected to visualization'', Line ''Connected to prism'']\<rparr>"
    using r0 by (simp add: connection_handler_eq init_def)
  have s1: "s1 = \<lparr>visSocket = Some 1, prismSocket = Some 3, listeners = [2, 3], sent = [],
      console = [Line ''Waiting for incoming of visualization and prism'',
                 Line ''Connected to visualization'', Line ''Connected to prism'',
                 Line ''Connected to prism'']\<rparr>"
    using st by (simp add: connection_handler_eq s0)
  have m1: "2 \<in> set (listeners s1)"
    by (simp add: s1)
  from later obtain s2 where r2: "run latin1 [Connection 4] s1 = Inr s2"
    and fw: "\<forall>p m. p \<in> set (listeners s1) \<longrightarrow>
                     0 < count_list (listeners s2) p
                     \<and> (\<exists>s3. step latin1 (Message p m) s2 = Inr s3
                           \<and> sent s3 = sent s2 @ replicate (count_list (listeners s2) p)
                                 (1, JSString (template_literal latin1 m)))"
    by blast
  have s2: "s2 = \<lparr>visSocket = Some 1, prismSocket = Some 4, listeners = [2, 3, 4],
      sent = [],
      console = [Line ''Waiting for incoming of visualization and prism'',
                 Line ''Connected to visualization'', Line ''Connected to prism'',
                 Line ''Connected to prism'', Line ''Connected to prism'']\<rparr>"
    using r2 by (simp add: connection_handler_eq s1)
  from fw m1 obtain s3 where st3: "step latin1 (Message 2 (JSString ''x'')) s2 = Inr s3"
    and sn: "sent s3 = sent s2 @ replicate (count_list (listeners s2) 2)
                                 (1, JSString (template_literal latin1 (JSString ''x'')))"
    by blast
  have "sent s3 = [(1, JSString ''x'')]"
    using sn by (simp add: s2)
  moreover have "listeners s2 = [2, 3, 4]"
    by (simp add: s2)
  moreover have "listeners s1 = [2, 3]"
    by (simp add: s1)
  ultimately show ?thesis
    using r0 st p1 m1 r2 st3 by blast
qed

subsection \<open>C5: what the variables hold\<close>

text \<open>
  As C5 is written, a variable is never replaced once set and a third connection
  gets no listener. The third socket does replace the second in \<open>prismSocket\<close>, it gets
  a listener, and its message is sent on to the first socket.
\<close>

theorem C5_counterexample:
  "run latin1 [Connection 1, Connection 2, Connection 3, Message 3 (JSString ''x'')] init =
     Inr \<lparr>visSocket = Some 1, prismSocket = Some 3, listeners = [2, 3],
          sent = [(1, JSString ''x'')],
          console = [Line ''Waiting for incoming of visualization and prism'',
                     Line ''Connected to visualization'', Line ''Connected to prism'',
                     Line ''Connected to prism'', Value (JSString ''x'')]\<rparr>"
  by code_simp

text \<open>
  C5, amended. In every state reached from the start each variable holds at most one
  socket, and which one is fixed by the sockets accepted so far: \<open>visSocket\<close> holds the
  first and is never replaced; \<open>prismSocket\<close> holds the latest one once there are two,
  so every later connection replaces it; and every socket but the first, a third one
  too, has had a listener registered, so that a message on it is sent on to the first
  socket, once for each of its listeners: a string as it is, a Buffer decoded.
\<close>

theorem C5_slots:
  "\<exists>s. run toString evs init = Inr s
       \<and> visSocket s = (case accepted evs of [] \<Rightarrow> None | a # as \<Rightarrow> Some a)
       \<and> prismSocket s = (if length (accepted evs) < 2 then None
                          else Some (last (accepted evs)))
       \<and> listeners s = tl (accepted evs)
       \<and> (\<forall>a as c m. accepted evs = a # as \<longrightarrow> c \<in> set as \<longrightarrow>
             0 < count_list (listeners s) c
             \<and> (\<exists>s'. step toString (Message c m) s = Inr s'
                   \<and> sent s' = sent s @ replicate (count_list (listeners s) c)
                         (a, case m of JSString t \<Rightarrow> JSString t
                                     | JSBuffer b \<Rightarrow> JSString (toString b))))"
proof -
  obtain s where r: "run toString evs init = Inr s"
    using run_total by blast
  note sl = reach_slots [OF r]
  have fw: "0 < count_list (listeners s) c
             \<and> (\<exists>s'. step toString (Message c m) s = Inr s'
                   \<and> sent s' = sent s @ replicate (count_list (listeners s) c)
                         (a, case m of JSString t \<Rightarrow> JSString t
                                     | JSBuffer b \<Rightarrow> JSString (toString b)))"
    if acc: "accepted evs = a # as" and c: "c \<in> set as" for a as c m
  proof -
    have v: "visSocket s = Some a" and l: "listeners s = as"
      using sl acc by simp_all
    have "0 < count_list (listeners s) c"
      using c l count_list_0_iff [of as c] by auto
    moreover have "step toString (Message c m) s =
        Inr (s\<lparr>console := console s @ replicate (count_list (listeners s) c) (Value m),
               sent := sent s @ replicate (count_list (listeners s) c)
                 (a, JSString (template_literal toString m))\<rparr>)"
      using v by (simp add: emit_message_eq)
    ultimately show ?thesis
      by (simp add: coerced_payload)
  qed
  from r sl fw show ?thesis by blast
qed

theorem C5_slots_witness:
  "\<exists>s s'. run latin1 [Connection 1, Connection 2, Connection 3] init = Inr s
        \<and> accepted [Connection 1, Connection 2, Connection 3] = 1 # [2, 3]
        \<and> 3 \<in> set [2, 3::nat]
        \<and> visSocket s = Some 1 \<and> prismSocket s = Some 3 \<and> listeners s = [2, 3]
        \<and> step latin1 (Message 3 (JSString ''x'')) s = Inr s'
        \<and> sent s' = [(1, JSString ''x'')]"
proof -
  let ?evs = "[Connection 1, Connection 2, Connection 3]"
  have a: "accepted ?evs = 1 # [2, 3]"
    by simp
  have c: "3 \<in> set [2, 3::nat]"
    by simp
  from C5_slots [of latin1 ?evs]
  obtain s where r: "run latin1 ?evs init = Inr s"
    and v: "visSocket s = (case accepted ?evs of [] \<Rightarrow> None | a # as \<Rightarrow> Some a)"
    and p: "prismSocket s = (if length (accepted ?evs) < 2 then None
                          else Some (last (accepted ?evs)))"
    and l: "listeners s = tl (accepted ?evs)"
    and fw: "\<forall>a as c m. accepted ?evs = a # as \<longrightarrow> c \<in> set as \<longrightarrow>
             0 < count_list (listeners s) c
             \<and> (\<exists>s'. step latin1 (Message c m) s = Inr s'
                   \<and> sent s' = sent s @ replicate (count_list (listeners s) c)
                         (a, case m of JSString t \<Rightarrow> JSString t
                                     | JSBuffer b \<Rightarrow> JSString (latin1 b)))"
    by blast
  have s: "sent s = []"
    using r by (auto simp: connection_handler_eq init_def)
  from fw [rule_format, OF a c, of "JSString ''x''"]
  obtain s' where "step latin1 (Message 3 (JSString ''x'')) s = Inr s'"
    and "sent s' = sent s @ replicate (count_list (listeners s) 3) (1, JSString ''x'')"
    by auto
  with r a c v p l s show ?thesis
    by auto
qed

subsection \<open>C6: a message while no visualization socket is set\<close>

text \<open>
  C6. While \<open>visSocket\<close> is \<open>null\<close>, the listener returns without raising and without
  a call of \<open>send\<close>, and so does a whole \<open>message\<close> event, on any socket and whatever
  listeners are registered.
\<close>

theorem C6_no_visualization:
  assumes "visSocket s = None"
  shows "\<exists>s1 s'. message_handler toString m s = Inr s1 \<and> sent s1 = sent s
              \<and> step toString (Message c m) s = Inr s' \<and> sent s' = sent s"
  using assms by (simp add: message_handler_eq emit_message_eq)

theorem C6_no_visualization_witness:
  "visSocket \<lparr>visSocket = None, prismSocket = Some 2, listeners = [2], sent = [],
              console = []\<rparr> = None
   \<and> (\<exists>s1 s'. message_handler latin1 (JSString ''ping'')
                 \<lparr>visSocket = None, prismSocket = Some 2, listeners = [2], sent = [],
                  console = []\<rparr> = Inr s1
          \<and> sent s1 = []
          \<and> step latin1 (Message 2 (JSString ''ping''))
                 \<lparr>visSocket = None, prismSocket = Some 2, listeners = [2], sent = [],
                  console = []\<rparr> = Inr s'
          \<and> sent s' = [])"
  using C6_no_visualization [of "\<lparr>visSocket = None, prismSocket = Some 2,
      listeners = [2], sent = [], console = []\<rparr>" latin1 "JSString ''ping''" 2]
  by simp

subsection \<open>C7: the visualization socket stays\<close>

text \<open>
  C7. Once \<open>visSocket\<close> holds a socket, it holds the same socket after any events
  whatsoever, and none of them raises.
\<close>

theorem C7_visualization_stays:
  assumes "visSocket s = Some v"
  shows "\<exists>s'. run toString evs s = Inr s' \<and> visSocket s' = Some v"
proof -
  obtain s' where r: "run toString evs s = Inr s'"
    using run_total by blast
  from run_visSocket [OF r assms] r show ?thesis by blast
qed

theorem C7_visualization_stays_witness:
  "visSocket \<lparr>visSocket = Some 1, prismSocket = None, listeners = [], sent = [],
              console = []\<rparr> = Some 1
   \<and> (\<exists>s'. run latin1 [Connection 2, Message 2 (JSString ''a''), Connection 3,
                        Message 1 (JSString ''b'')]
              \<lparr>visSocket = Some 1, prismSocket = None, listeners = [], sent = [],
               console = []\<rparr> = Inr s'
          \<and> visSocket s' = Some 1)"
  using C7_visualization_stays [of "\<lparr>visSocket = Some 1, prismSocket = None,
      listeners = [], sent = [], console = []\<rparr>" 1 latin1
      "[Connection 2, Message 2 (JSString ''a''), Connection 3, Message 1 (JSString ''b'')]"]
  by simp

subsection \<open>C8: one way only\<close>

text \<open>
  C8. The server hands a new socket object to each \<open>connection\<close> event, so the
  sockets of a trace are distinct. Then in every state reached from the start the
  socket in \<open>visSocket\<close> has no listener, a message from it causes no call of \<open>send\<close>,
  and every call of \<open>send\<close> made so far was on that socket.
\<close>

theorem C8_one_way:
  assumes "distinct (accepted evs)" and "run toString evs init = Inr s"
    and "visSocket s = Some v"
  shows "v \<notin> set (listeners s)
       \<and> (\<exists>s'. step toString (Message v m) s = Inr s' \<and> sent s' = sent s)
       \<and> (\<forall>x \<in> set (sent s). fst x = v)"
proof -
  from reach_slots [OF assms(2)] assms(3)
  obtain as where acc: "accepted evs = v # as" and ls: "listeners s = as"
    by (cases "accepted evs") auto
  from acc assms(1) ls have no: "v \<notin> set (listeners s)"
    by simp
  then have "count_list (listeners s) v = 0"
    by (simp add: count_list_0_iff)
  then have "\<exists>s'. step toString (Message v m) s = Inr s' \<and> sent s' = sent s"
    using assms(3) by (simp add: emit_message_eq)
  moreover have "\<forall>x \<in> set (sent s). fst x = v"
    using reach_sent [OF assms(2)] assms(3) by auto
  ultimately show ?thesis using no by blast
qed

theorem C8_one_way_witness:
  "distinct (accepted [Connection 1, Connection 2, Message 2 (JSString ''a'')])
   \<and> run latin1 [Connection 1, Connection 2, Message 2 (JSString ''a'')] init =
       Inr \<lparr>visSocket = Some 1, prismSocket = Some 2, listeners = [2],
            sent = [(1, JSString ''a'')],
            console = [Line ''Waiting for incoming of visualization and prism'',
                       Line ''Connected to visualization'', Line ''Connected to prism'',
                       Value (JSString ''a'')]\<rparr>
   \<and> 1 \<notin> set [2::nat]
   \<and> (\<exists>s'. step latin1 (Message 1 (JSString ''b''))
               \<lparr>visSocket = Some 1, prismSocket = Some 2, listeners = [2],
                sent = [(1, JSString ''a'')],
                console = [Line ''Waiting for incoming of visualization and prism'',
                           Line ''Connected to visualization'', Line ''Connected to prism'',
                           Value (JSString ''a'')]\<rparr> = Inr s'
          \<and> sent s' = [(1, JSString ''a'')])"
proof -
  let ?evs = "[Connection 1, Connection 2, Message 2 (JSString ''a'')]"
  let ?s = "\<lparr>visSocket = Some 1, prismSocket = Some 2, listeners = [2],
            sent = [(1, JSString ''a'')],
            console = [Line ''Waiting for incoming of visualization and prism'',
                       Line ''Connected to visualization'', Line ''Connected to prism'',
                       Value (JSString ''a'')]\<rparr>"
  have d: "distinct (accepted ?evs)"
    by simp
  have r: "run latin1 ?evs init = Inr ?s"
    by code_simp
  have v: "visSocket ?s = Some 1"
    by simp
  from C8_one_way [OF d r v, of "JSString ''b''"] d r show ?thesis
    by simp
qed

subsection \<open>C9: the payload is converted to a string\<close>

text \<open>
  C9. When the listener sends, it calls \<open>send\<close> once, and the argument is the string
  the template literal makes of the message: for a string that very string, for a
  Buffer the string its \<open>toString\<close> decodes it to. What is sent equals what was received
  exactly when the message is a string; for every Buffer it differs.
\<close>

theorem C9_string_coercion:
  assumes "visSocket s = Some v"
  shows "\<exists>s' d. message_handler toString m s = Inr s'
            \<and> sent s' = sent s @ [(v, d)]
            \<and> d = JSString (template_literal toString m)
            \<and> d = (case m of JSString t \<Rightarrow> JSString t
                            | JSBuffer b \<Rightarrow> JSString (toString b))
            \<and> ((d = m) = (\<exists>t. m = JSString t))"
  using assms by (cases m) (simp_all add: message_handler_eq)

theorem C9_string_coercion_witness:
  "visSocket connected = Some 1
   \<and> (\<exists>s'. message_handler latin1 (JSBuffer [0x68, 0x69]) connected = Inr s'
          \<and> sent s' = [(1, JSString ''hi'')]
          \<and> JSString ''hi'' \<noteq> JSBuffer [0x68, 0x69])
   \<and> (\<exists>s'. message_handler latin1 (JSString ''hi'') connected = Inr s'
          \<and> sent s' = [(1, JSString ''hi'')])"
proof -
  have l: "latin1 [0x68, 0x69] = ''hi''"
    by code_simp
  have v: "visSocket connected = Some 1"
    by (simp add: connected_def)
  have e: "sent connected = []"
    by (simp add: connected_def)
  from C9_string_coercion [OF v, of latin1 "JSBuffer [0x68, 0x69]"]
    C9_string_coercion [OF v, of latin1 "JSString ''hi''"]
  show ?thesis by (auto simp: l v e)
qed

subsection \<open>C10: a listener implies a visualization socket\<close>

text \<open>
  C10. In every state reached from the start, if a listener is registered then
  \<open>visSocket\<close> is set. So the listener never finds it \<open>null\<close>: the number of times it
  has run equals the number of calls of \<open>send\<close>.
\<close>

theorem C10_handler_needs_visualization:
  "\<exists>s. run toString evs init = Inr s
       \<and> (listeners s \<noteq> [] \<longrightarrow> visSocket s \<noteq> None)
       \<and> handler_runs s = length (sent s)"
proof -
  obtain s where r: "run toString evs init = Inr s"
    using run_total by blast
  have "visSocket s \<noteq> None" if "listeners s \<noteq> []"
    using reach_slots [OF r] that by (cases "accepted evs") auto
  with reach_sent [OF r] r show ?thesis by blast
qed

theorem C10_handler_needs_visualization_witness:
  "\<exists>s. run latin1 [Connection 1, Connection 2, Message 2 (JSString ''a''),
                   Message 2 (JSString ''b'')] init = Inr s
       \<and> listeners s \<noteq> [] \<and> visSocket s \<noteq> None
       \<and> handler_runs s = 2 \<and> length (sent s) = 2"
proof -
  have r: "run latin1 [Connection 1, Connection 2, Message 2 (JSString ''a''),
                   Message 2 (JSString ''b'')] init =
       Inr \<lparr>visSocket = Some 1, prismSocket = Some 2, listeners = [2],
            sent = [(1, JSString ''a''), (1, JSString ''b'')],
            console = [Line ''Waiting for incoming of visualization and prism'',
                       Line ''Connected to visualization'', Line ''Connected to prism'',
                       Value (JSString ''a''), Value (JSString ''b'')]\<rparr>"
    by code_simp
  from C10_handler_needs_visualization [of latin1 "[Connection 1, Connection 2,
      Message 2 (JSString ''a''), Message 2 (JSString ''b'')]"]
  show ?thesis unfolding r by auto
qed

end
